theory Spec2Isabelle
  imports Main
begin

section \<open>Python strings on ASCII text\<close>

text \<open>
  The chatbot of \<^verbatim>\<open>app.py\<close> works on Python \<^verbatim>\<open>str\<close> values. They are modelled as
  \<^typ>\<open>string\<close>, one \<^typ>\<open>char\<close> per code point, and the character classes below are
  Python's on the ASCII code points (below 128): the development is about ASCII text.
  Non-ASCII characters of the source's fixed reply texts (emoji) are written as their
  UTF-8 bytes and are never inspected.
\<close>

text \<open>
  \<^verbatim>\<open>str.strip()\<close> and the regular-expression class \<^verbatim>\<open>\s\<close> share one notion of
  whitespace; on ASCII it is tab, line feed, vertical tab, form feed, carriage return,
  the four separators 0x1C to 0x1F, and the space.
\<close>

definition whitespace :: "char list" where
  "whitespace = [CHR 0x09, CHR 0x0A, CHR 0x0B, CHR 0x0C, CHR 0x0D,
                 CHR 0x1C, CHR 0x1D, CHR 0x1E, CHR 0x1F, CHR '' '']"

definition ascii_uppercase :: "char list" where
  "ascii_uppercase = ''ABCDEFGHIJKLMNOPQRSTUVWXYZ''"

definition ascii_lowercase :: "char list" where
  "ascii_lowercase = ''abcdefghijklmnopqrstuvwxyz''"

definition digits :: "char list" where
  "digits = ''0123456789''"

definition is_space :: "char \<Rightarrow> bool" where
  "is_space c = (c \<in> set whitespace)"

definition is_digit :: "char \<Rightarrow> bool" where
  "is_digit c = (c \<in> set digits)"

definition is_alpha :: "char \<Rightarrow> bool" where
  "is_alpha c = (c \<in> set ascii_lowercase \<or> c \<in> set ascii_uppercase)"

text \<open>The class \<^verbatim>\<open>\w\<close>, which decides the word boundary \<^verbatim>\<open>\b\<close>.\<close>

definition is_word :: "char \<Rightarrow> bool" where
  "is_word c = (is_alpha c \<or> is_digit c \<or> c = CHR ''_'')"

definition lower_char :: "char \<Rightarrow> char" where
  "lower_char c = (case map_of (zip ascii_uppercase ascii_lowercase) c of
                     Some l \<Rightarrow> l | None \<Rightarrow> c)"

definition upper_char :: "char \<Rightarrow> char" where
  "upper_char c = (case map_of (zip ascii_lowercase ascii_uppercase) c of
                     Some u \<Rightarrow> u | None \<Rightarrow> c)"

definition lower :: "string \<Rightarrow> string" where
  "lower s = map lower_char s"

text \<open>
  \<^verbatim>\<open>str.title()\<close>: a character that follows a cased character is lowercased, any
  other character is uppercased.
\<close>

fun title_from :: "bool \<Rightarrow> string \<Rightarrow> string" where
  "title_from previous_is_cased [] = []"
| "title_from previous_is_cased (c # cs) =
     (if previous_is_cased then lower_char c else upper_char c) # title_from (is_alpha c) cs"

definition title :: "string \<Rightarrow> string" where
  "title s = title_from False s"

definition lstrip :: "string \<Rightarrow> string" where
  "lstrip s = dropWhile is_space s"

definition rstrip :: "string \<Rightarrow> string" where
  "rstrip s = rev (dropWhile is_space (rev s))"

definition strip :: "string \<Rightarrow> string" where
  "strip s = rstrip (lstrip s)"

text \<open>\<^verbatim>\<open>part.rstrip(":")\<close> and \<^verbatim>\<open>part.endswith(":")\<close>.\<close>

definition rstrip_colon :: "string \<Rightarrow> string" where
  "rstrip_colon s = rev (dropWhile (\<lambda>c. c = CHR '':'') (rev s))"

definition endswith_colon :: "string \<Rightarrow> bool" where
  "endswith_colon s = (s \<noteq> [] \<and> last s = CHR '':'')"

fun startswith :: "string \<Rightarrow> string \<Rightarrow> bool" where
  "startswith s [] = True"
| "startswith [] (p # ps) = False"
| "startswith (c # cs) (p # ps) = (c = p \<and> startswith cs ps)"

text \<open>The substring test \<^verbatim>\<open>k in s\<close>.\<close>

fun contains :: "string \<Rightarrow> string \<Rightarrow> bool" where
  "contains [] k = (k = [])"
| "contains (c # cs) k = (startswith (c # cs) k \<or> contains cs k)"

text \<open>\<^verbatim>\<open>s.split(',')\<close>, scanning with the piece read so far.\<close>

fun split_from :: "string \<Rightarrow> string \<Rightarrow> string list" where
  "split_from piece [] = [piece]"
| "split_from piece (c # cs) =
     (if c = CHR '','' then piece # split_from [] cs else split_from (piece @ [c]) cs)"

definition split_comma :: "string \<Rightarrow> string list" where
  "split_comma s = split_from [] s"

text \<open>\<^verbatim>\<open>sep.join(items)\<close>.\<close>

fun join :: "string \<Rightarrow> string list \<Rightarrow> string" where
  "join sep [] = []"
| "join sep [x] = x"
| "join sep (x # y # ys) = x @ sep @ join sep (y # ys)"

section \<open>The parsed record\<close>

text \<open>
  A Python \<^verbatim>\<open>dict\<close> keeps its keys in insertion order; assigning to a key that is
  present replaces the value in place, assigning to a new key appends the entry.
\<close>

type_synonym record_dict = "(string \<times> string) list"

fun dict_set :: "string \<Rightarrow> string \<Rightarrow> record_dict \<Rightarrow> record_dict" where
  "dict_set k v [] = [(k, v)]"
| "dict_set k v ((k', v') # rest) =
     (if k' = k then (k, v) # rest else (k', v') # dict_set k v rest)"

section \<open>\<^verbatim>\<open>parse_raw_info\<close>\<close>

definition keys :: "string list" where
  "keys = [''Destination'', ''Country'', ''Coordinates'', ''Standard Time / Timezone'',
           ''Currency'', ''Current Weather'', ''Places to Visit'',
           ''Description (short)'', ''Travel Tips'']"

text \<open>
  The pattern is the alternation of the escaped strings \<^verbatim>\<open>k + ":"\<close>, so each
  alternative matches its text literally and the first alternative that matches at a
  position is taken.
\<close>

definition delimiters :: "string list" where
  "delimiters = map (\<lambda>k. k @ '':'') keys"

fun match_delimiter :: "string list \<Rightarrow> string \<Rightarrow> string option" where
  "match_delimiter [] s = None"
| "match_delimiter (d # ds) s = (if startswith s d then Some d else match_delimiter ds s)"

text \<open>
  \<^verbatim>\<open>re.split\<close> with one capturing group around the pattern: the text before each match,
  the match itself, and at the end the text after the last match. A match found at
  \<open>c # cs\<close> is not empty (no delimiter is), so the scan resumes
  \<open>length d - 1\<close> characters into \<open>cs\<close>.
\<close>

fun re_split_from :: "string list \<Rightarrow> string \<Rightarrow> string \<Rightarrow> string list" where
  "re_split_from ds piece [] = [piece]"
| "re_split_from ds piece (c # cs) =
     (case match_delimiter ds (c # cs) of
        Some d \<Rightarrow> piece # d # re_split_from ds [] (drop (length d - 1) cs)
      | None \<Rightarrow> re_split_from ds (piece @ [c]) cs)"

definition re_split :: "string list \<Rightarrow> string \<Rightarrow> string list" where
  "re_split ds info_text = re_split_from ds [] info_text"

text \<open>
  The loop over \<^verbatim>\<open>parts\<close>. \<^verbatim>\<open>current_key\<close> is \<^verbatim>\<open>None\<close> or a string, and
  \<^verbatim>\<open>elif current_key\<close> holds for a string that is not empty.
\<close>

fun fill_dict :: "string option \<Rightarrow> record_dict \<Rightarrow> string list \<Rightarrow> record_dict" where
  "fill_dict current_key parsed_data [] = parsed_data"
| "fill_dict current_key parsed_data (part # parts) =
     (if strip part = [] then fill_dict current_key parsed_data parts
      else if endswith_colon part
      then fill_dict (Some (strip (rstrip_colon part))) parsed_data parts
      else (case current_key of
              Some k \<Rightarrow>
                (if k \<noteq> []
                 then fill_dict None (dict_set k (strip part) parsed_data) parts
                 else fill_dict current_key parsed_data parts)
            | None \<Rightarrow> fill_dict current_key parsed_data parts))"

definition parse_raw_info :: "string \<Rightarrow> record_dict" where
  "parse_raw_info info_text =
     (if info_text = [] then [] else fill_dict None [] (re_split delimiters info_text))"

section \<open>\<^verbatim>\<open>clean_places_to_visit\<close>\<close>

definition no_sites :: string where
  "no_sites = ''No specific sites listed.''"

definition non_location_keywords :: "string list" where
  "non_location_keywords = [''election'', ''film'', ''movie'', ''race'', ''title'']"

text \<open>
  \<^verbatim>\<open>re.search(r'\b\d{4}\b', item)\<close>. Before a digit the boundary \<^verbatim>\<open>\b\<close> holds when
  no word character precedes; after a digit it holds when no word character follows.
  \<open>year_here\<close> is \<^verbatim>\<open>\d{4}\b\<close> at the head of the text, and \<open>search_year\<close> tries
  the positions from left to right, knowing whether a word character precedes.
\<close>

fun year_here :: "string \<Rightarrow> bool" where
  "year_here (a # b # c # d # rest) =
     (is_digit a \<and> is_digit b \<and> is_digit c \<and> is_digit d \<and>
      (case rest of [] \<Rightarrow> True | e # _ \<Rightarrow> \<not> is_word e))"
| "year_here _ = False"

fun search_year :: "bool \<Rightarrow> string \<Rightarrow> bool" where
  "search_year after_word [] = False"
| "search_year after_word (c # cs) =
     ((\<not> after_word \<and> year_here (c # cs)) \<or> search_year (is_word c) cs)"

definition has_keyword :: "string \<Rightarrow> bool" where
  "has_keyword item = list_ex (\<lambda>keyword. contains (lower item) keyword) non_location_keywords"

definition skipped :: "string \<Rightarrow> bool" where
  "skipped item = (search_year False item \<or> has_keyword item)"

fun clean_items :: "string list \<Rightarrow> string list" where
  "clean_items [] = []"
| "clean_items (item # items) =
     (if skipped item then clean_items items else item # clean_items items)"

definition clean_places_to_visit :: "string \<Rightarrow> string" where
  "clean_places_to_visit raw_places_string =
     (if raw_places_string = [] then no_sites
      else let items = map strip (split_comma raw_places_string);
               cleaned_items = clean_items items
           in if cleaned_items = [] then no_sites else join '', '' cleaned_items)"

section \<open>\<^verbatim>\<open>extract_field\<close>\<close>

definition extract_field :: "record_dict \<Rightarrow> string \<Rightarrow> string" where
  "extract_field parsed_data field_name =
     (if parsed_data = []
      then ''Sorry, I couldn't find '' @ lower field_name @ '' information.''
      else (case map_of parsed_data field_name of
              Some v \<Rightarrow>
                ''**'' @ field_name @ '':** '' @
                (if field_name = ''Places to Visit'' then clean_places_to_visit v else v)
            | None \<Rightarrow>
                ''Sorry, I couldn't find '' @ lower field_name @
                '' information for that destination.''))"

section \<open>\<^verbatim>\<open>format_info_for_chat\<close>\<close>

definition long_fields :: "string list" where
  "long_fields = [''Description (short)'', ''Places to Visit'', ''Travel Tips'']"

fun format_lines :: "record_dict \<Rightarrow> string list" where
  "format_lines [] = []"
| "format_lines ((key, v) # rest) =
     (if key \<in> set long_fields
      then [CHR 0x0A # ''---'',
            ''**'' @ key @ '':**'' @ [CHR 0x0A] @
            (if key = ''Places to Visit'' then clean_places_to_visit v else v) @ [CHR 0x0A]]
      else [''*'' @ key @ '':* **'' @ v @ ''**''])
     @ format_lines rest"

definition format_info_for_chat :: "record_dict \<Rightarrow> string" where
  "format_info_for_chat parsed_data =
     (if parsed_data = [] then ''No destination information available.''
      else join [CHR 0x0A] (format_lines parsed_data))"

section \<open>The chat turn\<close>

subsection \<open>The session\<close>

text \<open>
  \<^verbatim>\<open>st.session_state\<close>: the chat history as (role, content) pairs, the last city and
  the record parsed for it.
\<close>

record session_state =
  messages :: "(string \<times> string) list"
  last_city :: "string option"
  parsed_info :: record_dict

subsection \<open>Which city, which field\<close>

definition greetings :: "string list" where
  "greetings = [''hi'', ''hello'', ''hey'', ''hola'']"

definition farewells :: "string list" where
  "farewells = [''bye'', ''goodbye'', ''see you'', ''exit'', ''quit'']"

text \<open>The dictionary \<^verbatim>\<open>fields\<close>, in the order in which its literal lists the entries.\<close>

definition fields :: "(string \<times> string) list" where
  "fields = [(''country'', ''Country''),
             (''coordinate'', ''Coordinates''),
             (''location'', ''Coordinates''),
             (''time'', ''Standard Time / Timezone''),
             (''timezone'', ''Standard Time / Timezone''),
             (''currency'', ''Currency''),
             (''weather'', ''Current Weather''),
             (''place'', ''Places to Visit''),
             (''attraction'', ''Places to Visit''),
             (''description'', ''Description (short)''),
             (''tip'', ''Travel Tips'')]"

text \<open>
  The loop \<^verbatim>\<open>for key in fields\<close>, which stops at the first key that occurs in the
  lowercased input.
\<close>

fun find_field :: "(string \<times> string) list \<Rightarrow> string \<Rightarrow> string option" where
  "find_field [] lower_input = None"
| "find_field ((key, name) # rest) lower_input =
     (if contains lower_input key then Some name else find_field rest lower_input)"

text \<open>
  \<^verbatim>\<open>re.search(r"(?:in|of)\s+([a-zA-Z\s,]+)$", lower_input)\<close>, as the backtracking matcher
  runs it. At a position that starts with \<^verbatim>\<open>in\<close> or \<^verbatim>\<open>of\<close>, \<^verbatim>\<open>\s+\<close> first takes
  all the whitespace that follows and gives it back one character at a time
  (\<open>match_spaces\<close>); for each choice the group first takes all the characters of its
  class and gives them back one at a time (\<open>match_words\<close>) until \<^verbatim>\<open>$\<close> holds, which
  is at the end of the text or before a line feed that ends it. The search takes the
  leftmost position that matches.
\<close>

definition in_city_class :: "char \<Rightarrow> bool" where
  "in_city_class c = (is_alpha c \<or> is_space c \<or> c = CHR '','')"

definition at_end :: "string \<Rightarrow> bool" where
  "at_end rest = (rest = [] \<or> rest = [CHR 0x0A])"

fun match_words :: "nat \<Rightarrow> string \<Rightarrow> string option" where
  "match_words 0 r = None"
| "match_words (Suc m) r =
     (if at_end (drop (Suc m) r) then Some (take (Suc m) r) else match_words m r)"

fun match_spaces :: "nat \<Rightarrow> string \<Rightarrow> string option" where
  "match_spaces 0 r = None"
| "match_spaces (Suc k) r =
     (case match_words (length (takeWhile in_city_class (drop (Suc k) r))) (drop (Suc k) r) of
        Some g \<Rightarrow> Some g
      | None \<Rightarrow> match_spaces k r)"

definition match_city_here :: "string \<Rightarrow> string option" where
  "match_city_here t =
     (if startswith t ''in'' \<or> startswith t ''of''
      then match_spaces (length (takeWhile is_space (drop 2 t))) (drop 2 t)
      else None)"

fun search_city :: "string \<Rightarrow> string option" where
  "search_city [] = match_city_here []"
| "search_city (c # cs) =
     (case match_city_here (c # cs) of Some g \<Rightarrow> Some g | None \<Rightarrow> search_city cs)"

definition resolve_city :: "string \<Rightarrow> string" where
  "resolve_city user_input =
     (case search_city (lower user_input) of
        Some g \<Rightarrow> title (strip g)
      | None \<Rightarrow> title user_input)"

subsection \<open>The fetch\<close>

definition initial_state :: session_state where
  "initial_state =
     \<lparr>messages = [(''assistant'',
         ''Hello! '' @ [CHR 0xF0, CHR 0x9F, CHR 0x91, CHR 0x8B] @ '' I'' @
         [CHR 0xE2, CHR 0x80, CHR 0x99] @
         ''m your travel companion. Please type a city name or ask for specific info like 'weather in London'.'')],
      last_city = None, parsed_info = []\<rparr>"

definition current_info_is_valid :: "session_state \<Rightarrow> string \<Rightarrow> bool" where
  "current_info_is_valid st city = (last_city st = Some city \<and> parsed_info st \<noteq> [])"

text \<open>\<^verbatim>\<open>if found_field\<close>: a field was found and its name is not empty.\<close>

definition is_set :: "string option \<Rightarrow> bool" where
  "is_set found_field = (case found_field of None \<Rightarrow> False | Some f \<Rightarrow> f \<noteq> [])"

text \<open>
  The provider \<^verbatim>\<open>get_destination_info\<close> of \<^verbatim>\<open>chatbot_logic.py\<close> asks three web
  services; here it is a parameter, a function from the city to the text it returns.
  The third component of the result lists the cities the provider was asked for.
\<close>

definition load_info ::
  "(string \<Rightarrow> string) \<Rightarrow> session_state \<Rightarrow> string \<Rightarrow> string option
     \<Rightarrow> session_state \<times> record_dict \<times> string list" where
  "load_info get_destination_info st city found_field =
     (if \<not> current_info_is_valid st city \<or> \<not> is_set found_field
      then let raw_info = get_destination_info city;
               parsed_data = parse_raw_info raw_info
           in (st\<lparr>last_city := Some city, parsed_info := parsed_data\<rparr>, parsed_data, [city])
      else (st, parsed_info st, []))"

subsection \<open>The reply\<close>

definition greeting_reply :: string where
  "greeting_reply = [CHR 0xF0, CHR 0x9F, CHR 0x91, CHR 0x8B] @
     '' Hello there! Please enter a destination name to get travel information.''"

definition farewell_reply :: string where
  "farewell_reply = [CHR 0xF0, CHR 0x9F, CHR 0x98, CHR 0x8A] @
     '' Thank you for chatting with me! Have a great journey ahead! '' @
     [CHR 0xE2, CHR 0x9C, CHR 0x88, CHR 0xEF, CHR 0xB8, CHR 0x8F]"

text \<open>
  The branch for an input that is neither a greeting nor a farewell.
  \<^verbatim>\<open>detect_language\<close> is the second parameter.
\<close>

definition answer ::
  "(string \<Rightarrow> string) \<Rightarrow> (string \<Rightarrow> string) \<Rightarrow> session_state \<Rightarrow> string
     \<Rightarrow> session_state \<times> string \<times> string list" where
  "answer get_destination_info detect_language st user_input =
     (let lower_input = lower user_input;
          city = resolve_city user_input;
          found_field = find_field fields lower_input;
          (st', parsed_data, asked) = load_info get_destination_info st city found_field;
          bot_reply =
            (if parsed_data = []
             then (if detect_language user_input \<noteq> ''en''
                   then ''Sorry, I can only respond in English. Please type in English.''
                   else ''Sorry, I couldn't find data for '' @ [CHR 0x27] @ city @ [CHR 0x27] @
                        ''. Make sure the city name is spelled correctly.'')
             else (case found_field of
                     Some f \<Rightarrow>
                       (if f \<noteq> [] then extract_field parsed_data f
                        else format_info_for_chat parsed_data)
                   | None \<Rightarrow> format_info_for_chat parsed_data))
      in (st', bot_reply, asked))"

text \<open>
  One run of the script with a prompt: the input is stripped and recorded, the reply
  is computed and recorded. With no prompt (\<^verbatim>\<open>None\<close> or the empty string) nothing
  happens.
\<close>

definition chat_turn ::
  "(string \<Rightarrow> string) \<Rightarrow> (string \<Rightarrow> string) \<Rightarrow> session_state \<Rightarrow> string
     \<Rightarrow> session_state \<times> string option \<times> string list" where
  "chat_turn get_destination_info detect_language st prompt =
     (if prompt = [] then (st, None, [])
      else let user_input = strip prompt;
               lower_input = lower user_input;
               st1 = st\<lparr>messages := messages st @ [(''user'', user_input)]\<rparr>;
               (st2, bot_reply, asked) =
                 (if list_ex (\<lambda>word. contains lower_input word) greetings
                  then (st1, greeting_reply, [])
                  else if list_ex (\<lambda>word. contains lower_input word) farewells
                  then (st1, farewell_reply, [])
                  else answer get_destination_info detect_language st1 user_input)
           in (st2\<lparr>messages := messages st2 @ [(''assistant'', bot_reply)]\<rparr>,
               Some bot_reply, asked))"

section \<open>A sample provider\<close>

text \<open>
  The provider and the language detector are outside the program text studied here.
  For concrete runs: a provider that knows two cities and otherwise answers with the
  sentence \<^verbatim>\<open>get_destination_info\<close> has for an unknown city, and a detector that
  answers \<^verbatim>\<open>en\<close>.
\<close>

definition sample_provider :: "string \<Rightarrow> string" where
  "sample_provider city_name =
     (if city_name = ''Delhi''
      then ''Destination:Delhi Country:India Standard Time / Timezone:IST Currency:INR (Indian Rupee)''
      else if city_name = ''Paris''
      then ''Country: France'' @ [CHR 0x0A] @ ''Currency: EUR (Euro)'' @ [CHR 0x0A]
      else ''Sorry, I couldn't find data for '' @ [CHR 0x27] @ city_name @ [CHR 0x27] @
           ''. Make sure the city name is spelled correctly.'')"

definition sample_language :: "string \<Rightarrow> string" where
  "sample_language text = ''en''"

definition paris_session :: session_state where
  "paris_session =
     initial_state\<lparr>last_city := Some ''Paris'',
                   parsed_info := [(''Country'', ''France''), (''Currency'', ''EUR (Euro)'')]\<rparr>"

section \<open>The rules in the specification's words\<close>

text \<open>
  The definitions of this section do not come from the source. They say in logic what
  the specification says in prose, for the theorems that compare the two.
\<close>

text \<open>
  An item \<^emph>\<open>contains a standalone 4-digit number\<close>: four digits in a row with no word
  character next to them on either side.
\<close>

definition standalone_year :: "string \<Rightarrow> bool" where
  "standalone_year item =
     (\<exists>pre ds post. item = pre @ ds @ post \<and> length ds = 4 \<and> (\<forall>d\<in>set ds. is_digit d) \<and>
        (pre = [] \<or> \<not> is_word (last pre)) \<and> (post = [] \<or> \<not> is_word (hd post)))"

text \<open>An item \<^emph>\<open>case-insensitively contains\<close> a keyword.\<close>

definition contains_ignoring_case :: "string \<Rightarrow> string \<Rightarrow> bool" where
  "contains_ignoring_case item keyword =
     (\<exists>pre w post. item = pre @ w @ post \<and> lower w = lower keyword)"

definition dropped :: "string \<Rightarrow> bool" where
  "dropped item =
     (standalone_year item \<or>
      (\<exists>keyword\<in>set non_location_keywords. contains_ignoring_case item keyword))"

text \<open>
  The \<^emph>\<open>"Key:value" occurrences\<close> of a blob: \<^verbatim>\<open>re.split\<close> returns the text before the
  first delimiter and then, for each delimiter found, the delimiter and the text that
  follows it. \<open>occurrences\<close> pairs each delimiter with that text.
\<close>

fun pair_up :: "string list \<Rightarrow> (string \<times> string) list" where
  "pair_up (d # t # rest) = (d, t) # pair_up rest"
| "pair_up _ = []"

fun unpair :: "(string \<times> string) list \<Rightarrow> string list" where
  "unpair [] = []"
| "unpair ((d, t) # rest) = d # t # unpair rest"

definition occurrences :: "string \<Rightarrow> (string \<times> string) list" where
  "occurrences info_text = pair_up (tl (re_split delimiters info_text))"

text \<open>
  An occurrence \<^emph>\<open>has value text\<close> when the text after the delimiter is not blank. Such
  an occurrence assigns the stripped text to the key, which is the delimiter without
  its colon; an occurrence without value text assigns nothing.
\<close>

definition has_value_text :: "string \<times> string \<Rightarrow> bool" where
  "has_value_text occ = (strip (snd occ) \<noteq> [])"

definition assign :: "record_dict \<Rightarrow> string \<times> string \<Rightarrow> record_dict" where
  "assign parsed_data occ =
     (if has_value_text occ
      then dict_set (butlast (fst occ)) (strip (snd occ)) parsed_data
      else parsed_data)"

text \<open>
  A text \<^emph>\<open>is a trailing pattern\<close> \<^verbatim>\<open>(in|of) <words>\<close>: the word \<^verbatim>\<open>in\<close> or \<^verbatim>\<open>of\<close>, then
  whitespace, then words of letters, whitespace and commas up to the end of the text.
\<close>

definition trailing_pattern :: "string \<Rightarrow> string \<Rightarrow> bool" where
  "trailing_pattern t words =
     (\<exists>kw ws. t = kw @ ws @ words \<and> (kw = ''in'' \<or> kw = ''of'') \<and>
        ws \<noteq> [] \<and> (\<forall>c\<in>set ws. is_space c) \<and>
        words \<noteq> [] \<and> (\<forall>c\<in>set words. in_city_class c))"

section \<open>Facts about the string primitives\<close>

lemma comma_not_space: "\<not> is_space (CHR '','')"
  by (simp add: is_space_def whitespace_def)

lemma blank_is_space: "is_space (CHR '' '')"
  by (simp add: is_space_def whitespace_def)

lemma strip_Nil: "strip [] = []"
  by (simp add: strip_def lstrip_def rstrip_def)

lemma strip_all_space: "\<forall>c\<in>set s. is_space c \<Longrightarrow> strip s = []"
proof -
  assume "\<forall>c\<in>set s. is_space c"
  then have "lstrip s = []" by (simp add: lstrip_def)
  then have "strip s = rstrip []" by (simp only: strip_def)
  then show ?thesis by (simp add: rstrip_def)
qed

lemma strip_space_Cons: "is_space c \<Longrightarrow> strip (c # s) = strip s"
  by (simp add: strip_def lstrip_def)

lemma set_strip: "set (strip s) \<subseteq> set s"
proof -
  have "set (rstrip t) \<subseteq> set t" for t
    using set_dropWhileD [of _ is_space "rev t"] by (auto simp: rstrip_def)
  moreover have "set (lstrip s) \<subseteq> set s"
    using set_dropWhileD [of _ is_space s] by (auto simp: lstrip_def)
  ultimately show ?thesis unfolding strip_def by blast
qed

lemma lstrip_idem: "lstrip (lstrip s) = lstrip s"
  by (simp add: lstrip_def dropWhile_idem)

lemma rstrip_idem: "rstrip (rstrip s) = rstrip s"
  by (simp add: rstrip_def dropWhile_idem)

lemma lstrip_rstrip_lstrip: "lstrip (rstrip (lstrip s)) = rstrip (lstrip s)"
proof (cases "lstrip s")
  case Nil
  then show ?thesis by (simp add: rstrip_def lstrip_def del: dropWhile_eq_Nil_conv)
next
  case (Cons c cs)
  then have c: "\<not> is_space c"
    by (metis lstrip_def hd_dropWhile list.sel(1) list.distinct(1))
  have "rstrip (c # cs) \<noteq> []"
    using c by (auto simp: rstrip_def dropWhile_append)
  moreover have "hd (rstrip (c # cs)) = c"
    using c by (simp add: rstrip_def dropWhile_append3 rev_eq_Cons_iff hd_append)  
  ultimately show ?thesis
    using c Cons by (cases "rstrip (c # cs)") (auto simp: lstrip_def)
qed

lemma strip_idem: "strip (strip s) = strip s"
  by (simp add: strip_def lstrip_rstrip_lstrip rstrip_idem)


lemma split_from_no_comma: "CHR '','' \<notin> set s \<Longrightarrow> split_from piece s = [piece @ s]"
  by (induction s arbitrary: piece) auto

lemma split_from_not_Nil: "split_from piece s \<noteq> []"
  by (induction s arbitrary: piece) auto

lemma split_from_append:
  "CHR '','' \<notin> set x \<Longrightarrow>
   split_from piece (x @ CHR '','' # rest) = (piece @ x) # split_from [] rest"
  by (induction x arbitrary: piece) auto

lemma split_from_comma_free:
  "CHR '','' \<notin> set piece \<Longrightarrow> \<forall>item\<in>set (split_from piece s). CHR '','' \<notin> set item"
proof (induction s arbitrary: piece)
  case Nil
  then show ?case by simp
next
  case (Cons c cs)
  show ?case
  proof (cases "c = CHR '',''")
    case True
    with Cons.prems Cons.IH [of "[]"] show ?thesis by simp
  next
    case False
    with Cons.prems Cons.IH [of "piece @ [c]"] show ?thesis by simp
  qed
qed

lemma split_comma_comma_free: "item \<in> set (split_comma s) \<Longrightarrow> CHR '','' \<notin> set item"
  unfolding split_comma_def using split_from_comma_free [of "[]" s] by simp

lemma join_split_from: "join '','' (split_from piece s) = piece @ s"
proof (induction s arbitrary: piece)
  case Nil
  show ?case by simp
next
  case (Cons c cs)
  show ?case
  proof (cases "c = CHR '',''")
    case True
    obtain y ys where "split_from [] cs = y # ys"
      using split_from_not_Nil [of "[]" cs] by (cases "split_from [] cs") auto
    with True Cons [of "[]"] show ?thesis by simp
  next
    case False
    with Cons [of "piece @ [c]"] show ?thesis by simp
  qed
qed

lemma split_from_join:
  "\<forall>item\<in>set (x # xs). CHR '','' \<notin> set item \<Longrightarrow>
   split_from piece (join '', '' (x # xs)) = (piece @ x) # map (\<lambda>item. CHR '' '' # item) xs"
proof (induction xs arbitrary: x piece)
  case Nil
  then show ?case by (simp add: split_from_no_comma)
next
  case (Cons y ys)
  have "split_from piece (join '', '' (x # y # ys)) =
        split_from piece (x @ CHR '','' # (CHR '' '' # join '', '' (y # ys)))"
    by simp
  also have "\<dots> = (piece @ x) # split_from [] (CHR '' '' # join '', '' (y # ys))"
    using Cons.prems by (simp add: split_from_append)
  also have "split_from [] (CHR '' '' # join '', '' (y # ys)) =
             split_from [CHR '' ''] (join '', '' (y # ys))"
    by simp
  also have "\<dots> = (CHR '' '' # y) # map (\<lambda>item. CHR '' '' # item) ys"
    using Cons.prems Cons.IH [of y "[CHR '' '']"] by simp
  finally show ?case by simp
qed

lemma clean_items_filter: "clean_items items = filter (\<lambda>item. \<not> skipped item) items"
  by (induction items) auto

lemma skipped_Nil: "\<not> skipped []"
  by (simp add: skipped_def has_keyword_def non_location_keywords_def lower_def)

lemma clean_no_sites: "clean_places_to_visit no_sites = no_sites"
  unfolding no_sites_def by code_simp

lemma join_eq_Nil: "sep \<noteq> [] \<Longrightarrow> join sep xs = [] \<longleftrightarrow> xs = [] \<or> xs = [[]]"
  by (induction sep xs rule: join.induct) auto


lemma startswith_iff: "startswith s p \<longleftrightarrow> (\<exists>rest. s = p @ rest)"
  by (induction s p rule: startswith.induct) auto

lemma contains_iff: "contains s k \<longleftrightarrow> (\<exists>pre post. s = pre @ k @ post)"
proof (induction s)
  case Nil
  show ?case by auto
next
  case (Cons c cs)
  show ?case
  proof
    assume "contains (c # cs) k"
    then consider "startswith (c # cs) k" | "contains cs k" by auto
    then show "\<exists>pre post. c # cs = pre @ k @ post"
    proof cases
      case 1
      then obtain rest where "c # cs = [] @ k @ rest" by (auto simp: startswith_iff)
      then show ?thesis by blast
    next
      case 2
      then obtain pre post where "cs = pre @ k @ post" using Cons by blast
      then have "c # cs = (c # pre) @ k @ post" by simp
      then show ?thesis by blast
    qed
  next
    assume "\<exists>pre post. c # cs = pre @ k @ post"
    then obtain pre post where eq: "c # cs = pre @ k @ post" by blast
    show "contains (c # cs) k"
    proof (cases pre)
      case Nil
      with eq have "startswith (c # cs) k" by (auto simp: startswith_iff)
      then show ?thesis by simp
    next
      case (Cons a pre')
      with eq have "cs = pre' @ k @ post" by simp
      then have "contains cs k" using Cons.IH by blast
      then show ?thesis by simp
    qed
  qed
qed

lemma year_here_iff:
  "year_here s \<longleftrightarrow>
     (\<exists>ds post. s = ds @ post \<and> length ds = 4 \<and> (\<forall>d\<in>set ds. is_digit d) \<and>
        (post = [] \<or> \<not> is_word (hd post)))"
proof
  assume "year_here s"
  then obtain a b c d rest where s: "s = a # b # c # d # rest"
    by (cases s rule: year_here.cases) auto
  with \<open>year_here s\<close> have "s = [a, b, c, d] @ rest \<and> length [a, b, c, d] = 4 \<and>
      (\<forall>x\<in>set [a, b, c, d]. is_digit x) \<and> (rest = [] \<or> \<not> is_word (hd rest))"
    by (cases rest) auto
  then show "\<exists>ds post. s = ds @ post \<and> length ds = 4 \<and> (\<forall>d\<in>set ds. is_digit d) \<and>
        (post = [] \<or> \<not> is_word (hd post))"
    by blast
next
  assume "\<exists>ds post. s = ds @ post \<and> length ds = 4 \<and> (\<forall>d\<in>set ds. is_digit d) \<and>
        (post = [] \<or> \<not> is_word (hd post))"
  then obtain ds post where s: "s = ds @ post" and l: "length ds = 4"
    and d: "\<forall>d\<in>set ds. is_digit d" and p: "post = [] \<or> \<not> is_word (hd post)"
    by blast
  from l obtain a b c e where "ds = [a, b, c, e]"
    by (auto simp: length_Suc_conv numeral_eq_Suc)
  with s d p show "year_here s" by (cases post) auto
qed

lemma search_year_iff:
  "search_year after_word s \<longleftrightarrow>
     (\<exists>pre ds post. s = pre @ ds @ post \<and> length ds = 4 \<and> (\<forall>d\<in>set ds. is_digit d) \<and>
        (if pre = [] then \<not> after_word else \<not> is_word (last pre)) \<and>
        (post = [] \<or> \<not> is_word (hd post)))"
  (is "_ \<longleftrightarrow> ?spec after_word s")
proof (induction s arbitrary: after_word)
  case Nil
  show ?case by auto
next
  case (Cons c cs)
  show ?case
  proof
    assume "search_year after_word (c # cs)"
    then consider "\<not> after_word" "year_here (c # cs)" | "search_year (is_word c) cs" by auto
    then show "?spec after_word (c # cs)"
    proof cases
      case 1
      from 1(2) obtain ds post where "c # cs = [] @ ds @ post" "length ds = 4"
        "\<forall>d\<in>set ds. is_digit d" "post = [] \<or> \<not> is_word (hd post)"
        unfolding year_here_iff by auto
      with 1(1) show ?thesis
        by (intro exI [of _ "[]"] exI [of _ ds] exI [of _ post]) auto
    next
      case 2
      then obtain pre ds post where *: "cs = pre @ ds @ post" "length ds = 4"
        "\<forall>d\<in>set ds. is_digit d" "if pre = [] then \<not> is_word c else \<not> is_word (last pre)"
        "post = [] \<or> \<not> is_word (hd post)"
        unfolding Cons.IH by blast
      then show ?thesis
        by (intro exI [of _ "c # pre"] exI [of _ ds] exI [of _ post]) (auto split: if_splits)
    qed
  next
    assume "?spec after_word (c # cs)"
    then obtain pre ds post where *: "c # cs = pre @ ds @ post" "length ds = 4"
        "\<forall>d\<in>set ds. is_digit d" "if pre = [] then \<not> after_word else \<not> is_word (last pre)"
        "post = [] \<or> \<not> is_word (hd post)"
      by blast
    show "search_year after_word (c # cs)"
    proof (cases pre)
      case Nil
      with * have "year_here (c # cs)" "\<not> after_word"
        unfolding year_here_iff by auto
      then show ?thesis by simp
    next
      case (Cons a pre')
      with * have "cs = pre' @ ds @ post"
        "if pre' = [] then \<not> is_word c else \<not> is_word (last pre')"
        by (auto split: if_splits)
      with * have "search_year (is_word c) cs"
        unfolding Cons.IH by blast
      then show ?thesis by simp
    qed
  qed
qed

lemma search_year_standalone: "search_year False item \<longleftrightarrow> standalone_year item"
proof -
  have "(if pre = [] then \<not> False else \<not> is_word (last pre)) \<longleftrightarrow>
        (pre = [] \<or> \<not> is_word (last pre))" for pre :: string
    by simp
  then show ?thesis
    unfolding search_year_iff standalone_year_def by simp
qed

lemma lower_keywords: "keyword \<in> set non_location_keywords \<Longrightarrow> lower keyword = keyword"
proof -
  have "list_all (\<lambda>keyword. lower keyword = keyword) non_location_keywords"
    unfolding non_location_keywords_def by code_simp
  then show "keyword \<in> set non_location_keywords \<Longrightarrow> lower keyword = keyword"
    by (simp add: list_all_iff)
qed

lemma contains_lower_iff:
  "contains (lower item) k \<longleftrightarrow> (\<exists>pre w post. item = pre @ w @ post \<and> lower w = k)"
proof
  assume "contains (lower item) k"
  then obtain a b where "map lower_char item = a @ (k @ b)"
    unfolding contains_iff lower_def by blast
  then have "\<exists>us vs. item = us @ vs \<and> a = map lower_char us \<and> k @ b = map lower_char vs"
    by (rule map_eq_append_conv [THEN iffD1])
  then obtain pre rest where 1: "item = pre @ rest" and 2: "k @ b = map lower_char rest"
    by blast
  from 2 have "\<exists>us vs. rest = us @ vs \<and> k = map lower_char us \<and> b = map lower_char vs"
    by (rule append_eq_map_conv [THEN iffD1])
  then obtain w post where "rest = w @ post" "k = lower w"
    unfolding lower_def by blast
  with 1 have "item = pre @ w @ post \<and> lower w = k" by simp
  then show "\<exists>pre w post. item = pre @ w @ post \<and> lower w = k"
    by blast
next
  assume "\<exists>pre w post. item = pre @ w @ post \<and> lower w = k"
  then obtain pre w post where "item = pre @ w @ post" "lower w = k" by blast
  then have "lower item = lower pre @ k @ lower post"
    by (simp add: lower_def)
  then show "contains (lower item) k"
    unfolding contains_iff by blast
qed

lemma has_keyword_iff:
  "has_keyword item \<longleftrightarrow>
     (\<exists>keyword\<in>set non_location_keywords. contains_ignoring_case item keyword)"
proof -
  have "contains (lower item) keyword \<longleftrightarrow> contains_ignoring_case item keyword"
    if "keyword \<in> set non_location_keywords" for keyword
    unfolding contains_ignoring_case_def contains_lower_iff lower_keywords [OF that] ..
  then show ?thesis
    unfolding has_keyword_def list_ex_iff by blast
qed

lemma skipped_iff_dropped: "skipped item \<longleftrightarrow> dropped item"
  by (simp add: skipped_def dropped_def search_year_standalone has_keyword_iff)

lemma split_comma_items:
  "join '','' (split_comma raw) = raw \<and> (\<forall>item\<in>set (split_comma raw). CHR '','' \<notin> set item)"
  using join_split_from [of "[]" raw] split_comma_comma_free [of _ raw]
  by (simp add: split_comma_def)

lemma clean_items_dropped: "clean_items items = filter (\<lambda>item. \<not> dropped item) items"
  by (simp add: clean_items_filter skipped_iff_dropped)


section \<open>The content filter\<close>

text \<open>
  Claim C8. The items of the input are its comma-separated pieces, each stripped of
  surrounding whitespace. An item is left out exactly when it contains a standalone
  4-digit number or contains, in any case of letters, one of the words election, film,
  movie, race, title; the items that remain are joined with a comma and a space. The
  specification's example is the last conjunct.
\<close>

theorem clean_places_drop_rule:
  "(raw \<noteq> [] \<longrightarrow>
      clean_places_to_visit raw =
        (let retained = filter (\<lambda>item. \<not> dropped item) (map strip (split_comma raw))
         in if retained = [] then no_sites else join '', '' retained)) \<and>
   join '','' (split_comma raw) = raw \<and>
   (\<forall>item\<in>set (split_comma raw). CHR '','' \<notin> set item) \<and>
   clean_places_to_visit ''Paris,2024 Olympics,Eiffel Tower,2023 Film Festival'' =
     ''Paris, Eiffel Tower''"
proof -
  have "clean_places_to_visit ''Paris,2024 Olympics,Eiffel Tower,2023 Film Festival'' =
     ''Paris, Eiffel Tower''"
    by code_simp
  then show ?thesis
    using split_comma_items [of raw]
    by (simp add: clean_places_to_visit_def clean_items_dropped Let_def)
qed

theorem clean_places_drop_rule_witness:
  "''London, Film Week ,1999 tour'' \<noteq> [] \<and>
   map strip (split_comma ''London, Film Week ,1999 tour'') =
     [''London'', ''Film Week'', ''1999 tour''] \<and>
   \<not> dropped ''London'' \<and> dropped ''Film Week'' \<and> dropped ''1999 tour'' \<and>
   clean_places_to_visit ''London, Film Week ,1999 tour'' = ''London''"
proof -
  have items: "map strip (split_comma ''London, Film Week ,1999 tour'') =
     [''London'', ''Film Week'', ''1999 tour'']"
    by code_simp
  have d: "\<not> skipped ''London''" "skipped ''Film Week''" "skipped ''1999 tour''"
    by code_simp+
  show ?thesis
    using clean_places_drop_rule [of "''London, Film Week ,1999 tour''"] d
    unfolding items skipped_iff_dropped by simp
qed


text \<open>
  Claim C3, as the code has it. For the empty input, and for an input all of whose items
  are left out, the filter returns its fixed sentence, which is
  \<^verbatim>\<open>No specific sites listed.\<close>
\<close>

theorem clean_places_sentinel:
  "raw = [] \<or> (\<forall>item\<in>set (map strip (split_comma raw)). dropped item) \<Longrightarrow>
   clean_places_to_visit raw = ''No specific sites listed.''"
proof -
  assume "raw = [] \<or> (\<forall>item\<in>set (map strip (split_comma raw)). dropped item)"
  then have "raw = [] \<or> clean_items (map strip (split_comma raw)) = []"
    unfolding clean_items_dropped by (auto simp: filter_empty_conv)
  then show ?thesis
    by (auto simp: clean_places_to_visit_def Let_def no_sites_def)
qed

theorem clean_places_sentinel_witness:
  "list_all dropped (map strip (split_comma ''2024 Olympics, Film Festival'')) \<and>
   clean_places_to_visit ''2024 Olympics, Film Festival'' = ''No specific sites listed.'' \<and>
   clean_places_to_visit [] = ''No specific sites listed.''"
proof -
  have "list_all skipped (map strip (split_comma ''2024 Olympics, Film Festival''))"
    by code_simp
  then have all: "list_all dropped (map strip (split_comma ''2024 Olympics, Film Festival''))"
    unfolding skipped_iff_dropped .
  show ?thesis
    using all clean_places_sentinel [of "''2024 Olympics, Film Festival''"]
      clean_places_sentinel [of "[]"]
    unfolding list_all_iff by blast
qed

text \<open>The sentence is not the one the specification quotes.\<close>

theorem clean_places_sentinel_counterexample:
  "clean_places_to_visit [] \<noteq> ''no items available'' \<and>
   clean_places_to_visit ''2024 Olympics'' \<noteq> ''no items available''"
  by code_simp

text \<open>
  Claim C5, as the code has it. Filtering the output of the filter gives the same output
  again, except when that output is the empty string: then the second pass returns the
  sentence for no sites.
\<close>

theorem clean_places_twice:
  "clean_places_to_visit (clean_places_to_visit raw) =
     (if clean_places_to_visit raw = [] then no_sites else clean_places_to_visit raw)"
proof -
  define kept where "kept = clean_items (map strip (split_comma raw))"
  have sites: "no_sites \<noteq> []" by (simp add: no_sites_def)
  show ?thesis
  proof (cases "raw = [] \<or> kept = []")
    case True
    then have "clean_places_to_visit raw = no_sites"
      by (auto simp: clean_places_to_visit_def kept_def Let_def)
    then show ?thesis using sites by (simp add: clean_no_sites)
  next
    case False
    then obtain x xs where kept: "kept = x # xs" by (cases kept) auto
    have out: "clean_places_to_visit raw = join '', '' kept"
      using False by (auto simp: clean_places_to_visit_def kept_def Let_def)
    show ?thesis
    proof (cases "join '', '' kept = []")
      case True
      with out show ?thesis by (simp add: clean_places_to_visit_def)
    next
      case nonempty: False
      have mem: "item \<in> set kept \<Longrightarrow>
                 CHR '','' \<notin> set item \<and> strip item = item \<and> \<not> skipped item" for item
      proof -
        assume "item \<in> set kept"
        then obtain piece where p: "piece \<in> set (split_comma raw)" "item = strip piece"
          and ns: "\<not> skipped item"
          by (auto simp: kept_def clean_items_filter)
        from p have "CHR '','' \<notin> set item"
          using split_comma_comma_free [of piece raw] set_strip [of piece] by auto
        with p ns show ?thesis by (simp add: strip_idem)
      qed
      have "split_comma (join '', '' kept) = x # map (\<lambda>item. CHR '' '' # item) xs"
        unfolding split_comma_def kept using mem kept
        by (intro split_from_join [of x xs "[]", simplified]) auto
      then have "map strip (split_comma (join '', '' kept)) = strip x # map strip xs"
        by (simp add: strip_space_Cons blank_is_space comp_def)
      also have "\<dots> = kept"
        using mem kept by (simp add: map_idI)
      finally have "clean_items (map strip (split_comma (join '', '' kept))) = kept"
        using mem by (simp add: clean_items_filter)
      then show ?thesis
        using out nonempty kept by (simp add: clean_places_to_visit_def)
    qed
  qed
qed

theorem clean_places_twice_witness:
  "clean_places_to_visit ''Paris, 2024 Games ,Louvre'' = ''Paris, Louvre'' \<and>
   clean_places_to_visit (clean_places_to_visit ''Paris, 2024 Games ,Louvre'') = ''Paris, Louvre''"
proof -
  have "clean_places_to_visit ''Paris, 2024 Games ,Louvre'' = ''Paris, Louvre''"
    by code_simp
  then show ?thesis
    using clean_places_twice [of "''Paris, 2024 Games ,Louvre''"] by simp
qed

text \<open>The filter is not idempotent on the input that is one space.\<close>

theorem clean_places_twice_counterexample:
  "clean_places_to_visit (clean_places_to_visit '' '') \<noteq> clean_places_to_visit '' ''"
  by code_simp

text \<open>
  Claim C10. An input that is not empty and consists of whitespace only is answered
  with the empty string, not with the sentence for no sites: the input has no comma, so
  it is the only item, the item strips to the empty string, the empty string passes both
  tests, and joining the one retained item gives the empty string.
\<close>

theorem clean_places_whitespace_only:
  assumes "raw \<noteq> []" and "\<forall>c\<in>set raw. is_space c"
  shows "clean_places_to_visit raw = []"
proof -
  have "CHR '','' \<notin> set raw"
    using assms(2) comma_not_space by blast
  then have "split_comma raw = [raw]"
    by (simp add: split_comma_def split_from_no_comma)
  moreover have "strip raw = []"
    using assms(2) by (rule strip_all_space)
  ultimately show ?thesis
    using assms(1) by (simp add: clean_places_to_visit_def skipped_Nil)
qed

theorem clean_places_whitespace_only_witness:
  "'' '' \<noteq> [] \<and> list_all is_space '' '' \<and> clean_places_to_visit '' '' = []"
  using clean_places_whitespace_only [of "'' ''"] by (simp add: blank_is_space)

section \<open>The record parser\<close>

lemma match_delimiter_Some:
  "match_delimiter ds s = Some d \<Longrightarrow> d \<in> set ds \<and> startswith s d"
  by (induction ds) (auto split: if_splits)

lemma match_delimiter_None:
  "match_delimiter ds s = None \<longleftrightarrow> (\<forall>d\<in>set ds. \<not> startswith s d)"
  by (induction ds) auto

lemma pair_up_unpair: "pair_up (unpair occs) = occs"
  by (induction occs) auto

lemma re_split_from_shape:
  "\<exists>t0 occs. re_split_from ds piece s = t0 # unpair occs \<and> fst ` set occs \<subseteq> set ds"
proof (induction ds piece s rule: re_split_from.induct)
  case (1 ds piece)
  have "re_split_from ds piece [] = piece # unpair [] \<and> fst ` set [] \<subseteq> set ds" by simp
  then show ?case by blast
next
  case (2 ds piece c cs)
  show ?case
  proof (cases "match_delimiter ds (c # cs)")
    case None
    with 2(1) [OF None] show ?thesis by simp
  next
    case (Some d)
    from 2(2) [OF Some] obtain t0 occs where
      *: "re_split_from ds [] (drop (length d - 1) cs) = t0 # unpair occs" "fst ` set occs \<subseteq> set ds"
      by blast
    from Some have "d \<in> set ds" by (simp add: match_delimiter_Some)
    with * Some have "re_split_from ds piece (c # cs) = piece # unpair ((d, t0) # occs) \<and>
        fst ` set ((d, t0) # occs) \<subseteq> set ds"
      by simp
    then show ?thesis by blast
  qed
qed

lemma re_split_occurrences:
  "\<exists>t0. re_split delimiters info_text = t0 # unpair (occurrences info_text)"
  using re_split_from_shape [of delimiters "[]" info_text]
  by (auto simp: re_split_def occurrences_def pair_up_unpair)

lemma occurrences_delimiters: "fst ` set (occurrences info_text) \<subseteq> set delimiters"
proof -
  obtain t0 occs where "re_split_from delimiters [] info_text = t0 # unpair occs"
    "fst ` set occs \<subseteq> set delimiters"
    using re_split_from_shape [of delimiters "[]" info_text] by blast
  then show ?thesis
    by (simp add: re_split_def occurrences_def pair_up_unpair)
qed

lemma delimiters_good:
  "d \<in> set delimiters \<Longrightarrow>
   strip d \<noteq> [] \<and> endswith_colon d \<and> strip (rstrip_colon d) = butlast d \<and> butlast d \<noteq> []"
proof -
  have "list_all (\<lambda>d. strip d \<noteq> [] \<and> endswith_colon d \<and> strip (rstrip_colon d) = butlast d \<and>
          butlast d \<noteq> []) delimiters"
    by code_simp
  then show "d \<in> set delimiters \<Longrightarrow>
   strip d \<noteq> [] \<and> endswith_colon d \<and> strip (rstrip_colon d) = butlast d \<and> butlast d \<noteq> []"
    unfolding list_all_iff by blast
qed

lemma fill_dict_unpair:
  "fst ` set occs \<subseteq> set delimiters \<Longrightarrow> \<forall>occ\<in>set occs. \<not> endswith_colon (snd occ) \<Longrightarrow>
   fill_dict current_key parsed_data (unpair occs) = foldl assign parsed_data occs"
proof (induction occs arbitrary: current_key parsed_data)
  case Nil
  show ?case by simp
next
  case (Cons occ occs)
  obtain d t where occ: "occ = (d, t)" by (cases occ)
  with Cons.prems have d: "d \<in> set delimiters" and t: "\<not> endswith_colon t" by auto
  have IH: "fill_dict ck pd (unpair occs) = foldl assign pd occs" for ck pd
    using Cons.IH Cons.prems by simp
  from delimiters_good [OF d]
  have "fill_dict current_key parsed_data (unpair (occ # occs)) =
        fill_dict (Some (butlast d)) parsed_data (t # unpair occs)"
    by (simp add: occ)
  also have "\<dots> = foldl assign (assign parsed_data (d, t)) occs"
    using delimiters_good [OF d] t by (simp add: IH assign_def has_value_text_def)
  finally show ?case by (simp add: occ)
qed

lemma fill_dict_pieces:
  assumes "fst ` set occs \<subseteq> set delimiters" "\<forall>occ\<in>set occs. \<not> endswith_colon (snd occ)"
  shows "fill_dict None parsed_data (t0 # unpair occs) = foldl assign parsed_data occs"
proof (cases occs)
  case Nil
  then show ?thesis by simp
next
  case (Cons occ occs')
  have "fill_dict None parsed_data (t0 # unpair occs) =
        fill_dict (if strip t0 \<noteq> [] \<and> endswith_colon t0 then Some (strip (rstrip_colon t0)) else None)
          parsed_data (unpair occs)"
    by simp
  then show ?thesis
    using fill_dict_unpair [OF assms] by simp
qed

lemma map_fst_dict_set:
  "map fst (dict_set k v parsed_data) =
     (if k \<in> set (map fst parsed_data) then map fst parsed_data else map fst parsed_data @ [k])"
  by (induction parsed_data) (simp_all, force)

lemma keys_dict_set: "set (map fst (dict_set k v parsed_data)) = insert k (set (map fst parsed_data))"
  unfolding map_fst_dict_set by (simp add: insert_absorb)

lemma distinct_dict_set:
  "distinct (map fst parsed_data) \<Longrightarrow> distinct (map fst (dict_set k v parsed_data))"
  unfolding map_fst_dict_set by simp

lemma keys_assign:
  "set (map fst (assign parsed_data occ)) =
     set (map fst parsed_data) \<union> (if has_value_text occ then {butlast (fst occ)} else {})"
  using keys_dict_set [of "butlast (fst occ)" "strip (snd occ)" parsed_data]
  by (simp add: assign_def)

lemma keys_foldl_assign:
  "set (map fst (foldl assign parsed_data occs)) =
     set (map fst parsed_data) \<union> set (map (\<lambda>occ. butlast (fst occ)) (filter has_value_text occs))"
proof (induction occs arbitrary: parsed_data)
  case Nil
  show ?case by simp
next
  case (Cons occ occs)
  have "set (map fst (foldl assign parsed_data (occ # occs))) =
        set (map fst (foldl assign (assign parsed_data occ) occs))"
    by simp
  also have "\<dots> = set (map fst (assign parsed_data occ)) \<union>
        set (map (\<lambda>occ. butlast (fst occ)) (filter has_value_text occs))"
    by (rule Cons.IH)
  finally show ?case
    unfolding keys_assign by auto
qed

lemma distinct_foldl_assign:
  "distinct (map fst parsed_data) \<Longrightarrow> distinct (map fst (foldl assign parsed_data occs))"
proof (induction occs arbitrary: parsed_data)
  case Nil
  then show ?case by simp
next
  case (Cons occ occs)
  have "distinct (map fst (assign parsed_data occ))"
    using Cons.prems by (simp add: assign_def distinct_dict_set)
  then show ?case
    using Cons.IH [of "assign parsed_data occ"] by simp
qed

lemma parse_raw_info_foldl:
  assumes "\<forall>occ\<in>set (occurrences info_text). \<not> endswith_colon (snd occ)"
  shows "parse_raw_info info_text = foldl assign [] (occurrences info_text)"
proof (cases "info_text = []")
  case True
  then show ?thesis
    by (simp add: parse_raw_info_def occurrences_def re_split_def)
next
  case False
  obtain t0 where "re_split delimiters info_text = t0 # unpair (occurrences info_text)"
    using re_split_occurrences by blast
  with False show ?thesis
    using fill_dict_pieces [OF occurrences_delimiters assms]
    by (simp add: parse_raw_info_def)
qed

text \<open>
  Claim C2, as the code has it. The pieces of the split are the text before the first
  delimiter and then, in turn, each delimiter found and the text that follows it. For
  a blob in which no text after a delimiter ends with a colon, the record is the result
  of going through the occurrences from left to right, an occurrence with value text
  assigning the stripped text to its key (replacing what an earlier occurrence of the
  same key assigned) and an occurrence whose text is blank, such as a delimiter that
  another delimiter follows at once, assigning nothing. Hence the record has one entry
  for each distinct key that has an occurrence with value text.
\<close>

theorem parse_raw_info_entries:
  assumes "\<forall>occ\<in>set (occurrences info_text). \<not> endswith_colon (snd occ)"
  shows "(\<exists>t0. re_split delimiters info_text = t0 # unpair (occurrences info_text)) \<and>
         fst ` set (occurrences info_text) \<subseteq> set delimiters \<and>
         parse_raw_info info_text = foldl assign [] (occurrences info_text) \<and>
         distinct (map fst (parse_raw_info info_text)) \<and>
         length (parse_raw_info info_text) =
           card (set (map (\<lambda>occ. butlast (fst occ))
                        (filter has_value_text (occurrences info_text))))"
proof -
  note eq = parse_raw_info_foldl [OF assms]
  have d: "distinct (map fst (parse_raw_info info_text))"
    unfolding eq by (simp add: distinct_foldl_assign)
  have "length (parse_raw_info info_text) = card (set (map fst (parse_raw_info info_text)))"
    using distinct_card [OF d] by simp
  also have "\<dots> = card (set (map (\<lambda>occ. butlast (fst occ))
                        (filter has_value_text (occurrences info_text))))"
    unfolding eq keys_foldl_assign by simp
  finally show ?thesis
    using re_split_occurrences occurrences_delimiters eq d by blast
qed

theorem parse_raw_info_entries_witness:
  "occurrences ''Destination: Delhi Country:Currency: INR Country: India'' =
     [(''Destination:'', '' Delhi ''), (''Country:'', []), (''Currency:'', '' INR ''),
      (''Country:'', '' India'')] \<and>
   list_all (\<lambda>occ. \<not> endswith_colon (snd occ))
     (occurrences ''Destination: Delhi Country:Currency: INR Country: India'') \<and>
   parse_raw_info ''Destination: Delhi Country:Currency: INR Country: India'' =
     [(''Destination'', ''Delhi''), (''Currency'', ''INR''), (''Country'', ''India'')] \<and>
   length (parse_raw_info ''Destination: Delhi Country:Currency: INR Country: India'') =
     card (set (map (\<lambda>occ. butlast (fst occ))
       (filter has_value_text (occurrences ''Destination: Delhi Country:Currency: INR Country: India''))))"
proof -
  have occs: "occurrences ''Destination: Delhi Country:Currency: INR Country: India'' =
     [(''Destination:'', '' Delhi ''), (''Country:'', []), (''Currency:'', '' INR ''),
      (''Country:'', '' India'')]"
    by code_simp
  have ok: "list_all (\<lambda>occ. \<not> endswith_colon (snd occ))
     (occurrences ''Destination: Delhi Country:Currency: INR Country: India'')"
    by code_simp
  have val: "parse_raw_info ''Destination: Delhi Country:Currency: INR Country: India'' =
     [(''Destination'', ''Delhi''), (''Currency'', ''INR''), (''Country'', ''India'')]"
    by code_simp
  from ok have "\<forall>occ\<in>set (occurrences ''Destination: Delhi Country:Currency: INR Country: India'').
      \<not> endswith_colon (snd occ)"
    unfolding list_all_iff .
  from parse_raw_info_entries [OF this] occs ok val show ?thesis
    by blast
qed

text \<open>
  Two blobs on which the count of the specification fails: a key that occurs twice
  with value text has one entry, and a text piece that ends with a colon is taken for a
  key, so that the key before it gets no entry.
\<close>

theorem parse_raw_info_entries_counterexample:
  "occurrences ''Country:A Country:B'' = [(''Country:'', ''A ''), (''Country:'', ''B'')] \<and>
   length (filter has_value_text (occurrences ''Country:A Country:B'')) = 2 \<and>
   parse_raw_info ''Country:A Country:B'' = [(''Country'', ''B'')] \<and>
   re_split delimiters ''Destination:x:'' = [[], ''Destination:'', ''x:''] \<and>
   ''x:'' \<notin> set delimiters \<and>
   length (filter has_value_text (occurrences ''Destination:x:'')) = 1 \<and>
   parse_raw_info ''Destination:x:'' = []"
  by code_simp

lemma re_split_from_no_delimiter:
  "\<forall>d\<in>set ds. \<not> contains s d \<Longrightarrow> re_split_from ds piece s = [piece @ s]"
proof (induction s arbitrary: piece)
  case Nil
  show ?case by simp
next
  case (Cons c cs)
  then have "match_delimiter ds (c # cs) = None" "\<forall>d\<in>set ds. \<not> contains cs d"
    by (simp_all add: match_delimiter_None)
  with Cons.IH [of "piece @ [c]"] show ?case by simp
qed

lemma fill_dict_single: "fill_dict None parsed_data [part] = parsed_data"
  by simp

text \<open>
  Claim C9. For the empty blob, and for a blob in which no delimiter of the catalog
  occurs, the parser returns the empty record. The function is total: no operation of
  \<^verbatim>\<open>parse_raw_info\<close> raises on a string.
\<close>

theorem parse_raw_info_no_delimiter:
  assumes "info_text = [] \<or> (\<forall>d\<in>set delimiters. \<nexists>pre post. info_text = pre @ d @ post)"
  shows "parse_raw_info info_text = []"
proof (cases "info_text = []")
  case True
  then show ?thesis by (simp add: parse_raw_info_def)
next
  case False
  with assms have "\<forall>d\<in>set delimiters. \<not> contains info_text d"
    unfolding contains_iff by blast
  then have "re_split delimiters info_text = [info_text]"
    by (simp add: re_split_def re_split_from_no_delimiter)
  then show ?thesis
    by (simp add: parse_raw_info_def)
qed

theorem parse_raw_info_no_delimiter_witness:
  "list_all (\<lambda>d. \<not> contains ''Sorry, no data for: Atlantis'' d) delimiters \<and>
   parse_raw_info ''Sorry, no data for: Atlantis'' = [] \<and> parse_raw_info [] = []"
proof -
  have "list_all (\<lambda>d. \<not> contains ''Sorry, no data for: Atlantis'' d) delimiters"
    by code_simp
  then show ?thesis
    using parse_raw_info_no_delimiter [of "''Sorry, no data for: Atlantis''"]
      parse_raw_info_no_delimiter [of "[]"]
    unfolding list_all_iff contains_iff by blast
qed

section \<open>The intent resolver\<close>

subsection \<open>The city\<close>

lemma space_in_city_class: "is_space c \<Longrightarrow> in_city_class c"
  by (simp add: in_city_class_def)

lemma take_within_takeWhile:
  "k \<le> length (takeWhile P xs) \<Longrightarrow> \<forall>c\<in>set (take k xs). P c"
proof -
  assume k: "k \<le> length (takeWhile P xs)"
  have "take k (takeWhile P xs @ dropWhile P xs) = take k (takeWhile P xs)"
    using k by (simp del: takeWhile_dropWhile_id)
  then have "take k xs = take k (takeWhile P xs)" by simp
  then have "set (take k xs) \<subseteq> set (takeWhile P xs)"
    using set_take_subset [of k "takeWhile P xs"] by simp
  then show ?thesis
    using set_takeWhileD [of _ P xs] by blast
qed

lemma match_words_Some:
  "match_words m r = Some g \<Longrightarrow> \<exists>m'. 0 < m' \<and> m' \<le> m \<and> g = take m' r \<and> at_end (drop m' r)"
proof (induction m)
  case 0
  then show ?case by simp
next
  case (Suc m)
  show ?case
  proof (cases "at_end (drop (Suc m) r)")
    case True
    with Suc.prems have "g = take (Suc m) r" by simp
    with True show ?thesis by blast
  next
    case False
    with Suc.prems have "match_words m r = Some g" by simp
    with Suc.IH obtain m' where "0 < m'" "m' \<le> m" "g = take m' r" "at_end (drop m' r)"
      by blast
    then have "0 < m' \<and> m' \<le> Suc m \<and> g = take m' r \<and> at_end (drop m' r)" by simp
    then show ?thesis by blast
  qed
qed

lemma match_spaces_Some:
  "match_spaces k r = Some g \<Longrightarrow>
   \<exists>k'. 0 < k' \<and> k' \<le> k \<and>
     match_words (length (takeWhile in_city_class (drop k' r))) (drop k' r) = Some g"
proof (induction k)
  case 0
  then show ?case by simp
next
  case (Suc k)
  show ?case
  proof (cases "match_words (length (takeWhile in_city_class (drop (Suc k) r))) (drop (Suc k) r)")
    case None
    with Suc.prems have "match_spaces k r = Some g" by simp
    with Suc.IH obtain k' where "0 < k'" "k' \<le> k"
      "match_words (length (takeWhile in_city_class (drop k' r))) (drop k' r) = Some g"
      by blast
    then have "0 < k' \<and> k' \<le> Suc k \<and>
      match_words (length (takeWhile in_city_class (drop k' r))) (drop k' r) = Some g"
      by simp
    then show ?thesis by blast
  next
    case (Some g')
    with Suc.prems have "g' = g" by simp
    with Some show ?thesis by blast
  qed
qed

lemma at_end_class: "at_end rest \<Longrightarrow> \<forall>c\<in>set rest. in_city_class c"
  by (auto simp: at_end_def in_city_class_def is_space_def whitespace_def)

lemma match_city_here_sound:
  assumes "match_city_here t = Some g"
  shows "\<exists>words. trailing_pattern t words"
proof -
  from assms have kw: "startswith t ''in'' \<or> startswith t ''of''"
    and ms: "match_spaces (length (takeWhile is_space (drop 2 t))) (drop 2 t) = Some g"
    by (auto simp: match_city_here_def split: if_splits)
  define r where "r = drop 2 t"
  from kw obtain kw' where t: "t = kw' @ r" and kw': "kw' = ''in'' \<or> kw' = ''of''"
    unfolding startswith_iff r_def by auto
  from ms obtain k where k: "0 < k" "k \<le> length (takeWhile is_space r)"
    and mw: "match_words (length (takeWhile in_city_class (drop k r))) (drop k r) = Some g"
    unfolding r_def [symmetric] using match_spaces_Some by blast
  from mw obtain m where m: "0 < m" "m \<le> length (takeWhile in_city_class (drop k r))"
    and g: "g = take m (drop k r)" and e: "at_end (drop m (drop k r))"
    using match_words_Some by blast
  have ws: "\<forall>c\<in>set (take k r). is_space c"
    using k(2) by (rule take_within_takeWhile)
  have "length (takeWhile is_space r) \<le> length r" by (rule length_takeWhile_le)
  with k have ws_ne: "take k r \<noteq> []" by auto
  have "\<forall>c\<in>set (take m (drop k r)). in_city_class c"
    using m(2) by (rule take_within_takeWhile)
  moreover have "drop k r = take m (drop k r) @ drop m (drop k r)"
    by (rule append_take_drop_id [symmetric])
  ultimately have words: "\<forall>c\<in>set (drop k r). in_city_class c"
    using at_end_class [OF e] by (metis Un_iff set_append)
  have "length (takeWhile in_city_class (drop k r)) \<le> length (drop k r)"
    by (rule length_takeWhile_le)
  with m have words_ne: "drop k r \<noteq> []" by auto
  have "t = kw' @ take k r @ drop k r" using t by simp
  with kw' ws ws_ne words words_ne have "trailing_pattern t (drop k r)"
    unfolding trailing_pattern_def by blast
  then show ?thesis by blast
qed

lemma lstrip_spaces_append: "\<forall>c\<in>set ws. is_space c \<Longrightarrow> lstrip (ws @ s) = lstrip s"
  by (simp add: lstrip_def dropWhile_append2)

lemma strip_spaces_append: "\<forall>c\<in>set ws. is_space c \<Longrightarrow> strip (ws @ s) = strip s"
  by (simp add: strip_def lstrip_spaces_append)

lemma strip_dropWhile: "strip (dropWhile is_space s) = strip s"
  using lstrip_idem [of s] by (simp add: strip_def lstrip_def)

lemma match_words_all:
  "r \<noteq> [] \<Longrightarrow> match_words (length r) r = Some r"
  by (cases r) (simp_all add: at_end_def)

lemma match_city_here_complete:
  assumes "trailing_pattern t words"
  shows "\<exists>g. match_city_here t = Some g \<and> strip g = strip words"
proof -
  from assms obtain kw ws where t: "t = kw @ ws @ words" and kw: "kw = ''in'' \<or> kw = ''of''"
    and ws: "ws \<noteq> []" "\<forall>c\<in>set ws. is_space c"
    and words: "words \<noteq> []" "\<forall>c\<in>set words. in_city_class c"
    unfolding trailing_pattern_def by blast
  define r where "r = ws @ words"
  have here: "match_city_here t = match_spaces (length (takeWhile is_space r)) r"
    using t kw by (auto simp: match_city_here_def r_def)
  have r_class: "\<forall>c\<in>set r. in_city_class c"
    using ws(2) words(2) by (auto simp: r_def space_in_city_class)
  have tw: "takeWhile is_space r = ws @ takeWhile is_space words"
    using ws(2) by (simp add: r_def takeWhile_append2)
  define w where "w = length (takeWhile is_space r)"
  have r_split: "r = takeWhile is_space r @ dropWhile is_space r" by simp
  have drop_w: "drop w r = dropWhile is_space r"
    unfolding w_def using r_split by (metis append_eq_conv_conj)
  from tw ws(1) obtain w0 where w0: "w = Suc w0"
    unfolding w_def by (cases ws) auto
  show ?thesis
  proof (cases "dropWhile is_space r = []")
    case False
    have "\<forall>c\<in>set (dropWhile is_space r). in_city_class c"
      using r_class set_dropWhileD [of _ is_space r] by blast
    then have tw_all: "takeWhile in_city_class (dropWhile is_space r) = dropWhile is_space r"
      by (simp add: takeWhile_eq_all_conv)
    have d: "drop (Suc w0) r = dropWhile is_space r"
      using drop_w w0 by simp
    have "match_spaces (Suc w0) r = Some (dropWhile is_space r)"
      unfolding match_spaces.simps d tw_all match_words_all [OF False] by simp
    then have "match_spaces w r = Some (dropWhile is_space r)"
      using w0 by simp
    moreover have "strip (dropWhile is_space r) = strip words"
      using ws(2) by (simp add: strip_dropWhile r_def strip_spaces_append)
    ultimately show ?thesis
      unfolding here w_def by blast
  next
    case True
    then have all_space: "\<forall>c\<in>set r. is_space c" by simp
    then have "takeWhile is_space r = r" by (simp add: takeWhile_eq_all_conv)
    then have w_len: "w = length r" unfolding w_def by (rule arg_cong)
    have "2 \<le> length r"
      using ws(1) words(1) by (cases ws; cases words) (auto simp: r_def)
    with w_len w0 obtain w1 where w1: "w0 = Suc w1" by (cases w0) auto
    have first: "match_words (length (takeWhile in_city_class (drop (Suc w0) r))) (drop (Suc w0) r) = None"
      using w_len w0 by simp
    have "drop w0 r = [last r]"
      using w_len w0 by (metis Suc_inject append_butlast_last_id append_eq_conv_conj
          length_0_conv length_butlast diff_Suc_1 nat.distinct(1))
    moreover have "is_space (last r)"
      using all_space w_len w0 by (metis last_in_set length_0_conv nat.distinct(1))
    ultimately have second:
      "match_words (length (takeWhile in_city_class (drop w0 r))) (drop w0 r) = Some [last r]"
      by (simp add: space_in_city_class at_end_def)
    have "match_spaces w0 r = Some [last r]"
      using second unfolding w1 by simp
    then have "match_spaces w r = Some [last r]"
      unfolding w0 using first by simp
    moreover have "strip [last r] = strip words"
      using all_space \<open>is_space (last r)\<close> by (simp add: strip_all_space r_def)
    ultimately show ?thesis
      unfolding here w_def by blast
  qed
qed

lemma search_city_skip:
  assumes "\<forall>i<length pre. match_city_here (drop i (pre @ t)) = None"
    and "match_city_here t = Some g"
  shows "search_city (pre @ t) = Some g"
  using assms(1)
proof (induction pre)
  case Nil
  show ?case using assms(2) by (cases t) simp_all
next
  case (Cons c pre)
  from Cons.prems have "match_city_here (c # pre @ t) = None"
    by (metis append_Cons drop0 length_greater_0_conv list.distinct(1))
  moreover have "\<forall>i<length pre. match_city_here (drop i (pre @ t)) = None"
  proof (intro allI impI)
    fix i assume "i < length pre"
    then have "Suc i < length (c # pre)" by simp
    with Cons.prems have "match_city_here (drop (Suc i) ((c # pre) @ t)) = None" by blast
    then show "match_city_here (drop i (pre @ t)) = None" by simp
  qed
  ultimately show ?case using Cons.IH by simp
qed

lemma search_city_None:
  "\<forall>i\<le>length s. match_city_here (drop i s) = None \<Longrightarrow> search_city s = None"
proof (induction s)
  case Nil
  then show ?case by simp
next
  case (Cons c cs)
  from Cons.prems have "match_city_here (c # cs) = None"
    by (metis drop0 le0)
  moreover have "\<forall>i\<le>length cs. match_city_here (drop i cs) = None"
  proof (intro allI impI)
    fix i assume "i \<le> length cs"
    then have "Suc i \<le> length (c # cs)" by simp
    with Cons.prems have "match_city_here (drop (Suc i) (c # cs)) = None" by blast
    then show "match_city_here (drop i cs) = None" by simp
  qed
  ultimately show ?case using Cons.IH by simp
qed

lemma trailing_pattern_iff_match:
  "(\<exists>words. trailing_pattern t words) \<longleftrightarrow> match_city_here t \<noteq> None"
  using match_city_here_sound [of t] match_city_here_complete [of t] by fastforce

lemma trailing_patternI:
  "t = kw @ ws @ words \<Longrightarrow> kw = ''in'' \<or> kw = ''of'' \<Longrightarrow> ws \<noteq> [] \<Longrightarrow> list_all is_space ws \<Longrightarrow>
   words \<noteq> [] \<Longrightarrow> list_all in_city_class words \<Longrightarrow> trailing_pattern t words"
  unfolding trailing_pattern_def list_all_iff by blast

lemma no_pattern_before:
  assumes "list_all (\<lambda>i. match_city_here (drop i s) = None) [0..<n]"
    and "s = pre @ t" and "trailing_pattern t words"
  shows "n \<le> length pre"
proof (rule ccontr)
  assume "\<not> n \<le> length pre"
  then have "length pre \<in> set [0..<n]" by simp
  with assms(1) have "match_city_here (drop (length pre) s) = None"
    unfolding list_all_iff by blast
  then have "match_city_here t = None" using assms(2) by simp
  with assms(3) show False using trailing_pattern_iff_match by blast
qed

lemma resolve_city_found:
  assumes s: "lower user_input = pre @ t" and tp: "trailing_pattern t words"
    and first: "\<forall>pre' t' words'. lower user_input = pre' @ t' \<and> trailing_pattern t' words'
                  \<longrightarrow> length pre \<le> length pre'"
  shows "resolve_city user_input = title (strip words)"
proof -
  from match_city_here_complete [OF tp] obtain g
    where g: "match_city_here t = Some g" "strip g = strip words" by blast
  have "\<forall>i<length pre. match_city_here (drop i (pre @ t)) = None"
  proof (intro allI impI)
    fix i assume i: "i < length pre"
    show "match_city_here (drop i (pre @ t)) = None"
    proof (rule ccontr)
      assume "match_city_here (drop i (pre @ t)) \<noteq> None"
      then obtain words' where "trailing_pattern (drop i (pre @ t)) words'"
        using trailing_pattern_iff_match by blast
      moreover have "lower user_input = take i (pre @ t) @ drop i (pre @ t)"
        unfolding s by (rule append_take_drop_id [symmetric])
      ultimately have "length pre \<le> length (take i (pre @ t))"
        using first by blast
      with i show False by simp
    qed
  qed
  then have "search_city (lower user_input) = Some g"
    unfolding s using g(1) by (rule search_city_skip)
  then show ?thesis by (simp add: resolve_city_def g(2))
qed

lemma resolve_city_not_found:
  assumes "\<nexists>pre t words. lower user_input = pre @ t \<and> trailing_pattern t words"
  shows "resolve_city user_input = title user_input"
proof -
  have "\<forall>i\<le>length (lower user_input). match_city_here (drop i (lower user_input)) = None"
  proof (intro allI impI)
    fix i
    have "lower user_input = take i (lower user_input) @ drop i (lower user_input)" by simp
    with assms have "\<nexists>words. trailing_pattern (drop i (lower user_input)) words" by blast
    then show "match_city_here (drop i (lower user_input)) = None"
      using trailing_pattern_iff_match by blast
  qed
  then have "search_city (lower user_input) = None" by (rule search_city_None)
  then show ?thesis by (simp add: resolve_city_def)
qed

text \<open>
  Claim C6. When the lowercased input has a trailing pattern \<^verbatim>\<open>(in|of) <words>\<close>, the
  city is the words of the leftmost one, stripped and title-cased; when it has none, the
  city is the whole input, title-cased. The last two conjuncts are the specification's
  examples.
\<close>

theorem resolve_city_trailing_pattern:
  "(\<forall>pre t words.
      lower user_input = pre @ t \<and> trailing_pattern t words \<and>
      (\<forall>pre' t' words'. lower user_input = pre' @ t' \<and> trailing_pattern t' words'
         \<longrightarrow> length pre \<le> length pre')
      \<longrightarrow> resolve_city user_input = title (strip words)) \<and>
   ((\<nexists>pre t words. lower user_input = pre @ t \<and> trailing_pattern t words)
      \<longrightarrow> resolve_city user_input = title user_input) \<and>
   resolve_city ''currency of japan'' = ''Japan'' \<and>
   resolve_city ''Tokyo'' = ''Tokyo''"
proof -
  have "resolve_city ''currency of japan'' = ''Japan''" by code_simp
  moreover have "resolve_city ''Tokyo'' = ''Tokyo''" by code_simp
  ultimately show ?thesis
    using resolve_city_found [of user_input] resolve_city_not_found [of user_input]
    by blast
qed

theorem resolve_city_trailing_pattern_witness:
  "lower ''Hotels IN city of London'' = ''hotels '' @ ''in city of london'' \<and>
   trailing_pattern ''in city of london'' ''city of london'' \<and>
   list_all (\<lambda>i. match_city_here (drop i (lower ''Hotels IN city of London'')) = None) [0..<7] \<and>
   resolve_city ''Hotels IN city of London'' = ''City Of London'' \<and>
   list_all (\<lambda>i. match_city_here (drop i (lower ''New York'')) = None) [0..<9] \<and>
   resolve_city ''New York'' = ''New York''"
proof -
  have l: "lower ''Hotels IN city of London'' = ''hotels '' @ ''in city of london''"
    by code_simp
  have "list_all is_space '' ''" "list_all in_city_class ''city of london''"
    by code_simp+
  then have tp: "trailing_pattern ''in city of london'' ''city of london''"
    by (intro trailing_patternI [of _ "''in''" "'' ''"]) simp_all
  have before: "list_all (\<lambda>i. match_city_here (drop i (lower ''Hotels IN city of London'')) = None) [0..<7]"
    by code_simp
  have first: "\<forall>pre' t' words'. lower ''Hotels IN city of London'' = pre' @ t' \<and>
      trailing_pattern t' words' \<longrightarrow> length ''hotels '' \<le> length pre'"
  proof (intro allI impI)
    fix pre' t' words'
    assume "lower ''Hotels IN city of London'' = pre' @ t' \<and> trailing_pattern t' words'"
    then have "7 \<le> length pre'"
      using no_pattern_before [OF before] by blast
    then show "length ''hotels '' \<le> length pre'" by simp
  qed
  have t: "title (strip ''city of london'') = ''City Of London''" by code_simp
  have none: "list_all (\<lambda>i. match_city_here (drop i (lower ''New York'')) = None) [0..<9]"
    by code_simp
  have len: "length (lower ''New York'') = 8" by (simp add: lower_def)
  have nf: "\<nexists>pre t words. lower ''New York'' = pre @ t \<and> trailing_pattern t words"
  proof
    assume "\<exists>pre t words. lower ''New York'' = pre @ t \<and> trailing_pattern t words"
    then obtain pre t words where *: "lower ''New York'' = pre @ t" "trailing_pattern t words"
      by blast
    then have "9 \<le> length pre" by (rule no_pattern_before [OF none])
    moreover have "length pre \<le> 8" using len unfolding *(1) by simp
    ultimately show False by simp
  qed
  have t2: "title ''New York'' = ''New York''" by code_simp
  note thm1 = resolve_city_trailing_pattern [of "''Hotels IN city of London''", THEN conjunct1,
      THEN spec, THEN spec, THEN spec, THEN mp, OF conjI [OF l conjI [OF tp first]]]
  note thm2 = resolve_city_trailing_pattern [of "''New York''", THEN conjunct2, THEN conjunct1,
      THEN mp, OF nf]
  from thm1 t have "resolve_city ''Hotels IN city of London'' = ''City Of London''" by simp
  moreover from thm2 t2 have "resolve_city ''New York'' = ''New York''" by simp
  ultimately show ?thesis using l tp before none by (intro conjI)
qed

subsection \<open>The field\<close>

lemma find_field_first:
  "fs = before @ (key, name) # after \<Longrightarrow> \<forall>alias\<in>set before. \<not> contains l (fst alias) \<Longrightarrow>
   contains l key \<Longrightarrow> find_field fs l = Some name"
proof (induction before arbitrary: fs)
  case Nil
  then show ?case by simp
next
  case (Cons entry earlier)
  obtain k n where "entry = (k, n)" by (cases entry)
  with Cons.prems Cons.IH [of "earlier @ (key, name) # after"] show ?case by simp
qed

lemma find_field_none:
  "\<forall>alias\<in>set fs. \<not> contains l (fst alias) \<Longrightarrow> find_field fs l = None"
  by (induction fs) auto

text \<open>
  Claim C7. The field is the one of the first alias, in the order of the catalog, that
  occurs in the lowercased input: an alias that occurs, with no alias before it in the
  catalog occurring, decides the field whatever comes after it. When no alias occurs, no
  field is requested. \<open>contains\<close> is the substring relation. The last conjunct is
  the specification's example.
\<close>

theorem find_field_catalog_order:
  "(\<forall>before key name after.
      fields = before @ (key, name) # after \<and>
      (\<forall>alias\<in>set before. \<not> contains (lower user_input) (fst alias)) \<and>
      contains (lower user_input) key
      \<longrightarrow> find_field fields (lower user_input) = Some name) \<and>
   ((\<forall>alias\<in>set fields. \<not> contains (lower user_input) (fst alias))
      \<longrightarrow> find_field fields (lower user_input) = None) \<and>
   (\<forall>s k. contains s k \<longleftrightarrow> (\<exists>pre post. s = pre @ k @ post)) \<and>
   find_field fields (lower ''currency of japan'') = Some ''Currency''"
proof -
  have "find_field fields (lower ''currency of japan'') = Some ''Currency''"
    by code_simp
  then show ?thesis
    using find_field_first [of fields _ _ _ _ "lower user_input"]
      find_field_none [of fields "lower user_input"] contains_iff
    by blast
qed

theorem find_field_catalog_order_witness:
  "fields = take 3 fields @ (''time'', ''Standard Time / Timezone'') # drop 4 fields \<and>
   list_all (\<lambda>alias. \<not> contains (lower ''Time and weather in Rome'') (fst alias)) (take 3 fields) \<and>
   contains (lower ''Time and weather in Rome'') ''time'' \<and>
   contains (lower ''Time and weather in Rome'') ''weather'' \<and>
   find_field fields (lower ''Time and weather in Rome'') = Some ''Standard Time / Timezone'' \<and>
   list_all (\<lambda>alias. \<not> contains (lower ''Tokyo'') (fst alias)) fields \<and>
   find_field fields (lower ''Tokyo'') = None"
proof -
  have f: "fields = take 3 fields @ (''time'', ''Standard Time / Timezone'') # drop 4 fields"
    by (simp add: fields_def)
  have b: "list_all (\<lambda>alias. \<not> contains (lower ''Time and weather in Rome'') (fst alias)) (take 3 fields)"
    by code_simp
  have c: "contains (lower ''Time and weather in Rome'') ''time''"
    "contains (lower ''Time and weather in Rome'') ''weather''"
    by code_simp+
  have n: "list_all (\<lambda>alias. \<not> contains (lower ''Tokyo'') (fst alias)) fields"
    by code_simp
  note thm1 = find_field_catalog_order [of "''Time and weather in Rome''", THEN conjunct1,
      THEN spec, THEN spec, THEN spec, THEN spec, THEN mp,
      OF conjI [OF f conjI [OF b [unfolded list_all_iff] c(1)]]]
  note thm2 = find_field_catalog_order [of "''Tokyo''", THEN conjunct2, THEN conjunct1,
      THEN mp, OF n [unfolded list_all_iff]]
  from f b c n thm1 thm2 show ?thesis by (intro conjI)
qed


section \<open>The session cache\<close>

text \<open>
  Claim C4, as the code has it. The cached record is used, and the provider is not
  asked, exactly when the last city equals the city, the cached record is not empty and
  a field is requested; in every other case the provider is asked for the city and the
  parsed answer replaces the cache. After the cache holds a record \<open>R\<close> for Paris, a
  request for a field of Paris returns \<open>R\<close> without a fetch when \<open>R\<close> is not empty,
  and a request about London asks the provider for London.
\<close>

theorem load_info_cache:
  "(snd (snd (load_info get_destination_info st city found_field)) = [] \<longleftrightarrow>
      last_city st = Some city \<and> parsed_info st \<noteq> [] \<and> is_set found_field) \<and>
   (last_city st = Some city \<and> parsed_info st \<noteq> [] \<and> is_set found_field \<longrightarrow>
      load_info get_destination_info st city found_field = (st, parsed_info st, [])) \<and>
   (\<not> (last_city st = Some city \<and> parsed_info st \<noteq> [] \<and> is_set found_field) \<longrightarrow>
      load_info get_destination_info st city found_field =
        (st\<lparr>last_city := Some city, parsed_info := parse_raw_info (get_destination_info city)\<rparr>,
         parse_raw_info (get_destination_info city), [city])) \<and>
   (R \<noteq> [] \<and> is_set found_field \<longrightarrow>
      load_info get_destination_info (st\<lparr>last_city := Some ''Paris'', parsed_info := R\<rparr>)
        ''Paris'' found_field =
        (st\<lparr>last_city := Some ''Paris'', parsed_info := R\<rparr>, R, [])) \<and>
   snd (snd (load_info get_destination_info (st\<lparr>last_city := Some ''Paris'', parsed_info := R\<rparr>)
        ''London'' found_field)) = [''London'']"
  by (simp add: load_info_def current_info_is_valid_def Let_def)

theorem load_info_cache_witness:
  "last_city paris_session = Some ''Paris'' \<and> parsed_info paris_session \<noteq> [] \<and>
   is_set (Some ''Currency'') \<and>
   load_info sample_provider paris_session ''Paris'' (Some ''Currency'') =
     (paris_session, [(''Country'', ''France''), (''Currency'', ''EUR (Euro)'')], []) \<and>
   snd (snd (load_info sample_provider paris_session ''London'' (Some ''Currency''))) = [''London'']"
proof -
  have p: "last_city paris_session = Some ''Paris''" "parsed_info paris_session \<noteq> []"
    "parsed_info paris_session = [(''Country'', ''France''), (''Currency'', ''EUR (Euro)'')]"
    "is_set (Some ''Currency'')"
    by (simp_all add: paris_session_def is_set_def)
  have s: "paris_session = paris_session\<lparr>last_city := Some ''Paris'',
      parsed_info := [(''Country'', ''France''), (''Currency'', ''EUR (Euro)'')]\<rparr>"
    by (simp add: paris_session_def)
  note thm1 = load_info_cache [of sample_provider paris_session "''Paris''" "Some ''Currency''",
      THEN conjunct2, THEN conjunct1, THEN mp, OF conjI [OF p(1) conjI [OF p(2) p(4)]]]
  note thm2 = load_info_cache [where get_destination_info = sample_provider and st = paris_session
        and found_field = "Some ''Currency''"
        and R = "[(''Country'', ''France''), (''Currency'', ''EUR (Euro)'')]",
        THEN conjunct2, THEN conjunct2, THEN conjunct2, THEN conjunct2]
  have l: "snd (snd (load_info sample_provider paris_session ''London'' (Some ''Currency''))) = [''London'']"
    using thm2 unfolding s [symmetric] .
  from p(1,2,4) thm1 [unfolded p(3)] l show ?thesis by (intro conjI)
qed

text \<open>
  With Paris cached and its record not empty, a request that names no field asks the
  provider again; so does a request for a field when the cached record is empty.
\<close>

theorem load_info_cache_counterexample:
  "last_city paris_session = Some ''Paris'' \<and> parsed_info paris_session \<noteq> [] \<and>
   snd (snd (load_info sample_provider paris_session ''Paris'' None)) = [''Paris''] \<and>
   snd (snd (load_info sample_provider (initial_state\<lparr>last_city := Some ''Paris'', parsed_info := []\<rparr>)
        ''Paris'' (Some ''Currency''))) = [''Paris'']"
  by (simp add: load_info_def current_info_is_valid_def is_set_def paris_session_def
      initial_state_def Let_def)

section \<open>A whole turn\<close>

lemma time_of_delhi_intent:
  "resolve_city ''time of Delhi'' = ''Delhi''"
  "find_field fields (lower ''time of Delhi'') = Some ''Standard Time / Timezone''"
  by code_simp+

lemma delhi_blob_parsed:
  "parse_raw_info
     ''Destination:Delhi Country:India Standard Time / Timezone:IST Currency:INR (Indian Rupee)'' =
   [(''Destination'', ''Delhi''), (''Country'', ''India''),
    (''Standard Time / Timezone'', ''IST''), (''Currency'', ''INR (Indian Rupee)'')]"
  by code_simp

lemma delhi_time_extracted:
  "extract_field
     [(''Destination'', ''Delhi''), (''Country'', ''India''),
      (''Standard Time / Timezone'', ''IST''), (''Currency'', ''INR (Indian Rupee)'')]
     ''Standard Time / Timezone'' = ''**Standard Time / Timezone:** IST''"
  by code_simp

text \<open>
  The answering branch on \<^verbatim>\<open>time of Delhi\<close>: with a provider that returns the blob for
  Delhi, on a session whose cache does not hold Delhi, it asks the provider once, caches
  the parsed record and replies with the time zone.
\<close>

lemma answer_time_of_delhi:
  assumes "get_destination_info ''Delhi'' =
      ''Destination:Delhi Country:India Standard Time / Timezone:IST Currency:INR (Indian Rupee)''"
    and "\<not> current_info_is_valid st ''Delhi''"
  shows "answer get_destination_info detect_language st ''time of Delhi'' =
      (st\<lparr>last_city := Some ''Delhi'',
          parsed_info := [(''Destination'', ''Delhi''), (''Country'', ''India''),
            (''Standard Time / Timezone'', ''IST''), (''Currency'', ''INR (Indian Rupee)'')]\<rparr>,
       ''**Standard Time / Timezone:** IST'', [''Delhi''])"
  unfolding answer_def time_of_delhi_intent load_info_def Let_def
  using assms(2) by (simp add: assms(1) delhi_blob_parsed delhi_time_extracted is_set_def)

text \<open>
  The script reaches the answering branch only for an input in which no greeting and no
  farewell word occurs as a substring.
\<close>

lemma chat_turn_greeting:
  "prompt \<noteq> [] \<Longrightarrow> list_ex (\<lambda>word. contains (lower (strip prompt)) word) greetings \<Longrightarrow>
   chat_turn get_destination_info detect_language st prompt =
     (st\<lparr>messages := messages st @ [(''user'', strip prompt), (''assistant'', greeting_reply)]\<rparr>,
      Some greeting_reply, [])"
  by (simp add: chat_turn_def Let_def)

lemma chat_turn_answer:
  "prompt \<noteq> [] \<Longrightarrow> \<not> list_ex (\<lambda>word. contains (lower (strip prompt)) word) greetings \<Longrightarrow>
   \<not> list_ex (\<lambda>word. contains (lower (strip prompt)) word) farewells \<Longrightarrow>
   fst (snd (chat_turn get_destination_info detect_language st prompt)) =
     Some (fst (snd (answer get_destination_info detect_language
        (st\<lparr>messages := messages st @ [(''user'', strip prompt)]\<rparr>) (strip prompt))))"
  by (simp add: chat_turn_def Let_def split: prod.splits)

text \<open>
  Claim C1, and what the script does. For the input \<^verbatim>\<open>time of Delhi\<close> the city is Delhi
  and the field is \<^verbatim>\<open>Standard Time / Timezone\<close>, and parsing the blob and extracting that
  field gives \<^verbatim>\<open>**Standard Time / Timezone:** IST\<close>, as the claim says. But a turn of the
  script with this input does not get there: \<^verbatim>\<open>hi\<close> occurs in \<^verbatim>\<open>delhi\<close>, the test for a
  greeting holds, and whatever the provider, the detector and the session are, the reply
  is the greeting and the provider is not asked.
\<close>

theorem time_of_delhi_turn:
  "resolve_city ''time of Delhi'' = ''Delhi'' \<and>
   find_field fields (lower ''time of Delhi'') = Some ''Standard Time / Timezone'' \<and>
   extract_field
     (parse_raw_info
        ''Destination:Delhi Country:India Standard Time / Timezone:IST Currency:INR (Indian Rupee)'')
     ''Standard Time / Timezone'' = ''**Standard Time / Timezone:** IST'' \<and>
   contains (lower ''time of Delhi'') ''hi'' \<and>
   chat_turn get_destination_info detect_language st ''time of Delhi'' =
     (st\<lparr>messages := messages st @
         [(''user'', ''time of Delhi''), (''assistant'', greeting_reply)]\<rparr>,
      Some greeting_reply, []) \<and>
   greeting_reply \<noteq> ''**Standard Time / Timezone:** IST''"
proof -
  have g: "list_ex (\<lambda>word. contains (lower (strip ''time of Delhi'')) word) greetings"
    by code_simp
  have s: "strip ''time of Delhi'' = ''time of Delhi''" by code_simp
  have c: "contains (lower ''time of Delhi'') ''hi''" by code_simp
  have n: "greeting_reply \<noteq> ''**Standard Time / Timezone:** IST''"
    by (simp add: greeting_reply_def)
  have "''time of Delhi'' \<noteq> []" by simp
  from chat_turn_greeting [OF this g] c n show ?thesis
    unfolding s by (simp add: time_of_delhi_intent delhi_blob_parsed delhi_time_extracted)
qed

theorem time_of_delhi_turn_witness:
  "fst (snd (chat_turn sample_provider sample_language initial_state ''time of Delhi'')) =
     Some greeting_reply \<and>
   fst (snd (answer sample_provider sample_language initial_state ''time of Delhi'')) =
     ''**Standard Time / Timezone:** IST''"
proof -
  have p: "sample_provider ''Delhi'' =
     ''Destination:Delhi Country:India Standard Time / Timezone:IST Currency:INR (Indian Rupee)''"
    by (simp add: sample_provider_def)
  have v: "\<not> current_info_is_valid initial_state ''Delhi''"
    by (simp add: current_info_is_valid_def initial_state_def)
  from time_of_delhi_turn [where get_destination_info = sample_provider
      and detect_language = sample_language and st = initial_state]
    answer_time_of_delhi [where get_destination_info = sample_provider
      and detect_language = sample_language and st = initial_state, OF p v]
  show ?thesis by simp
qed

end
